theory Spec2Isabelle
  imports Main
begin

section \<open>The Qt front end: effects of the C++ code\<close>

text \<open>
  The C++ sources are the application entry point (\<^verbatim>\<open>src/main.cpp\<close>) and the screen
  grabber that opens a capture session at the desktop portal over DBus
  (\<^verbatim>\<open>src/backend/WaylandScreenGrabber.cpp\<close>). Both are \<^verbatim>\<open>void\<close> code that acts on its
  surroundings only: it writes to the debug log, emits Qt signals and asks the application
  to exit. A function is therefore modelled by the list of effects it performs, in order.
\<close>

datatype signal =
    sessionCreated string
  | errorOccurred string

text \<open>
  \<^verbatim>\<open>qDebug() << a << b\<close> and \<^verbatim>\<open>qWarning() << a\<close> are kept as the list of the items streamed
  to the log; \<^verbatim>\<open>emit s\<close> as \<open>Emit s\<close>; \<^verbatim>\<open>QCoreApplication::exit(c)\<close> as \<open>Exit c\<close>.
\<close>

datatype effect =
    Debug "string list"
  | Warning "string list"
  | Emit signal
  | Exit int

subsection \<open>QVariant and QDBusMessage\<close>

text \<open>
  The values a DBus reply can carry, as far as \<^verbatim>\<open>handleDBusResponse\<close> tells them apart:
  a value that converts to a \<^verbatim>\<open>QVariantMap\<close> (keys to variants, kept as an association
  list), and values that do not (an invalid variant, a boolean, a string, a list).
\<close>

datatype variant =
    VInvalid
  | VBool bool
  | VString string
  | VList "variant list"
  | VMap "(string \<times> variant) list"

text \<open>\<^verbatim>\<open>QVariant::canConvert<QVariantMap>()\<close>\<close>

fun canConvert_QVariantMap :: "variant \<Rightarrow> bool" where
  "canConvert_QVariantMap (VMap m) = True"
| "canConvert_QVariantMap v = False"

text \<open>\<^verbatim>\<open>QVariant::value<QVariantMap>()\<close>: the map, or an empty one for a value that is none.\<close>

fun value_QVariantMap :: "variant \<Rightarrow> (string \<times> variant) list" where
  "value_QVariantMap (VMap m) = m"
| "value_QVariantMap v = []"

text \<open>\<^verbatim>\<open>QVariantMap::contains(key)\<close>\<close>

definition contains :: "(string \<times> variant) list \<Rightarrow> string \<Rightarrow> bool" where
  "contains m k = (map_of m k \<noteq> None)"

text \<open>\<^verbatim>\<open>QVariantMap::operator[](key)\<close>: the value stored, or a default (invalid) variant.\<close>

definition at_key :: "(string \<times> variant) list \<Rightarrow> string \<Rightarrow> variant" where
  "at_key m k = (case map_of m k of Some v \<Rightarrow> v | None \<Rightarrow> VInvalid)"

text \<open>
  \<^verbatim>\<open>QVariant::toString()\<close>: a string is itself, a boolean is \<^verbatim>\<open>true\<close> or \<^verbatim>\<open>false\<close>, and a
  value with no text form (invalid, list, map) is the empty string.
\<close>

fun toString :: "variant \<Rightarrow> string" where
  "toString (VString s) = s"
| "toString (VBool b) = (if b then ''true'' else ''false'')"
| "toString v = []"

text \<open>\<^verbatim>\<open>QVariant::typeName()\<close>\<close>

fun typeName :: "variant \<Rightarrow> string" where
  "typeName VInvalid = []"
| "typeName (VBool b) = ''bool''"
| "typeName (VString s) = ''QString''"
| "typeName (VList xs) = ''QVariantList''"
| "typeName (VMap m) = ''QVariantMap''"

text \<open>\<^verbatim>\<open>QDBusMessage::MessageType\<close>\<close>

datatype message_type =
    InvalidMessage
  | MethodCallMessage
  | ReplyMessage
  | ErrorMessage
  | SignalMessage

text \<open>
  A \<^verbatim>\<open>QDBusMessage\<close>, with the parts the code reads: \<^verbatim>\<open>type()\<close>, \<^verbatim>\<open>errorName()\<close> and
  \<^verbatim>\<open>arguments()\<close>; and, for the call that is sent, its destination.
\<close>

record dbus_message =
  msg_type :: message_type
  errorName :: string
  arguments :: "variant list"

record method_call =
  call_service :: string
  call_path :: string
  call_interface :: string
  call_member :: string
  call_arguments :: "variant list"

subsection \<open>WaylandScreenGrabber\<close>

text \<open>\<^verbatim>\<open>WaylandScreenGrabber::handleDBusResponse\<close>, branch by branch.\<close>

definition handleDBusResponse :: "dbus_message \<Rightarrow> effect list" where
  "handleDBusResponse message =
     (if arguments message = [] then [Warning [''Empty DBus response'']]
      else
        (let firstArg = hd (arguments message) in
         if canConvert_QVariantMap firstArg then
           (let responseMap = value_QVariantMap firstArg in
            if contains responseMap ''session_handle'' then
              (let sessionPath = toString (at_key responseMap ''session_handle'') in
               [Debug [''Session created at path:'', sessionPath],
                Emit (sessionCreated sessionPath)])
            else [Debug [''No session_handle found in response'']])
         else [Debug [''Unexpected response type:'', typeName firstArg]]))"

text \<open>
  The method call \<^verbatim>\<open>initCapture\<close> builds: \<^verbatim>\<open>CreateSession\<close> on the portal's ScreenCast
  interface, with one argument, the options map.
\<close>

definition create_session_call :: method_call where
  "create_session_call =
     \<lparr>call_service = ''org.freedesktop.portal.Desktop'',
      call_path = ''/org/freedesktop/portal/desktop'',
      call_interface = ''org.freedesktop.portal.ScreenCast'',
      call_member = ''CreateSession'',
      call_arguments =
        [VMap [(''handle_token'', VString ''pixel_pilot_session_123''),
               (''session_handle_token'', VString ''session_token_456'')]]\<rparr>"

text \<open>
  \<^verbatim>\<open>WaylandScreenGrabber::initCapture\<close>. The session bus is the surroundings: \<open>bus\<close> gives
  the message that \<^verbatim>\<open>connection.call(message, QDBus::Block, 10000)\<close> comes back with (a
  reply, or an error message when the portal is missing, refuses or times out).
\<close>

definition initCapture :: "(method_call \<Rightarrow> dbus_message) \<Rightarrow> effect list" where
  "initCapture bus =
     Debug [''Attempting to create Wayland screen capture session...''] #
     (let reply = bus create_session_call in
      if msg_type reply = ReplyMessage then
        Debug [''DBus call successful!''] # handleDBusResponse reply
      else
        (let errorMessage = ''DBus call failed: '' @ errorName reply in
         [Debug [errorMessage], Emit (errorOccurred errorMessage)]))"

subsection \<open>main\<close>

text \<open>
  The slot \<^verbatim>\<open>main\<close> connects to \<^verbatim>\<open>QQmlApplicationEngine::objectCreated\<close>: it captures
  \<open>url\<close>, the URL of the main window, and receives the created object (\<open>None\<close> for a
  null pointer) and the URL it was created for.
\<close>

definition objectCreated_slot :: "'u \<Rightarrow> 'o option \<Rightarrow> 'u \<Rightarrow> effect list" where
  "objectCreated_slot url obj objUrl =
     (if obj = None \<and> url = objUrl then [Exit (- 1)] else [])"

definition main_url :: string where
  "main_url = ''qrc:/PixelPilot/src/ui/Main.qml''"

text \<open>The effects of a piece of code that are signals, and those that end the application.\<close>

definition emitted :: "effect list \<Rightarrow> signal list" where
  "emitted fx = concat (map (\<lambda>e. case e of Emit s \<Rightarrow> [s] | _ \<Rightarrow> []) fx)"

definition exit_codes :: "effect list \<Rightarrow> int list" where
  "exit_codes fx = concat (map (\<lambda>e. case e of Exit c \<Rightarrow> [c] | _ \<Rightarrow> []) fx)"

text \<open>A session bus on which the portal is not running: every call comes back as an error.\<close>

definition portal_missing :: "method_call \<Rightarrow> dbus_message" where
  "portal_missing c =
     \<lparr>msg_type = ErrorMessage,
      errorName = ''org.freedesktop.DBus.Error.ServiceUnknown'',
      arguments = []\<rparr>"


section \<open>The graph evaluation of the specification\<close>

text \<open>
  Modelled from the spec: the block model, the graph and the evaluation of a tick. Their
  code is missing from the sources, which hold the C++ front end only; the README of the
  repository describes them (three block types, the gates AND, OR, NOT, NAND and XOR, and
  a loop of three passes over the node list). The definitions of this section follow the
  specification, sections 3 and 4.3.
\<close>

text \<open>Modelled from the spec: the kind of a node, one of Input, Process and Output.\<close>

datatype kind = Input | Process | Output

text \<open>
  Modelled from the spec: the gate type of a Process node (its "gate type for logic"); the
  five gates are those the README lists.
\<close>

datatype gate = AND | OR | NOT | NAND | XOR

text \<open>
  Modelled from the spec: a node has a stable id, a kind, a display name, its
  configuration (of which evaluation reads the gate type), and named input and output
  ports.
\<close>

record node =
  node_id :: nat
  kind :: kind
  name :: string
  gate_type :: gate
  input_ports :: "string list"
  output_ports :: "string list"

text \<open>
  Modelled from the spec: a link is a directed edge from an output port of one node to an
  input port of another, held by ids and port names
  (\<^verbatim>\<open>{from_node, from_port, to_node, to_port}\<close>).
\<close>

record link =
  from_node :: nat
  from_port :: string
  to_node :: nat
  to_port :: string

text \<open>
  Modelled from the spec: the graph is a collection of nodes, ordered for iteration, and a
  collection of links.
\<close>

record graph =
  nodes :: "node list"
  links :: "link list"

text \<open>
  Modelled from the spec: the last-computed boolean output of every output port; a port is
  a node id and a port name.
\<close>

type_synonym port_values = "nat \<times> string \<Rightarrow> bool"

text \<open>Modelled from the spec: the link that arrives at an input port, if there is one.\<close>

definition incoming :: "graph \<Rightarrow> nat \<Rightarrow> string \<Rightarrow> link option" where
  "incoming g i p = find (\<lambda>l. to_node l = i \<and> to_port l = p) (links g)"

text \<open>
  Modelled from the spec: an input port reads the current value of the output port it is
  linked to; "unconnected input ports read as false".
\<close>

definition read_port :: "graph \<Rightarrow> port_values \<Rightarrow> nat \<Rightarrow> string \<Rightarrow> bool" where
  "read_port g v i p =
     (case incoming g i p of None \<Rightarrow> False | Some l \<Rightarrow> v (from_node l, from_port l))"

text \<open>
  Modelled from the spec: what a gate computes from the values of its input ports, by the
  usual truth tables (AND: all true; OR: one true; NOT: the first input negated; NAND: not
  all true; XOR: an odd number true).
\<close>

fun gate_output :: "gate \<Rightarrow> bool list \<Rightarrow> bool" where
  "gate_output AND xs = list_all (\<lambda>b. b) xs"
| "gate_output OR xs = list_ex (\<lambda>b. b) xs"
| "gate_output NOT xs = (case xs of [] \<Rightarrow> False | b # bs \<Rightarrow> \<not> b)"
| "gate_output NAND xs = (\<not> list_all (\<lambda>b. b) xs)"
| "gate_output XOR xs = odd (length (filter (\<lambda>b. b) xs))"

text \<open>
  Modelled from the spec: the output a Process node computes; "Process-kind nodes with no
  connected inputs output false".
\<close>

definition process_output :: "graph \<Rightarrow> port_values \<Rightarrow> node \<Rightarrow> bool" where
  "process_output g v n =
     (if list_all (\<lambda>p. incoming g (node_id n) p = None) (input_ports n) then False
      else gate_output (gate_type n) (map (read_port g v (node_id n)) (input_ports n)))"

text \<open>Modelled from the spec: a node stores its computed output on each of its output ports.\<close>

definition write_output :: "node \<Rightarrow> bool \<Rightarrow> port_values \<Rightarrow> port_values" where
  "write_output n b v =
     (\<lambda>(i, p). if i = node_id n \<and> p \<in> set (output_ports n) then b else v (i, p))"

text \<open>
  Modelled from the spec: pass 0 evaluates every Input node and stores its boolean output.
  \<open>sense i\<close> is what the Condition of the Input node \<open>i\<close> yields in this tick, from the
  providers and the state store.
\<close>

definition eval_input :: "(nat \<Rightarrow> bool) \<Rightarrow> node \<Rightarrow> port_values \<Rightarrow> port_values" where
  "eval_input sense n v =
     (if kind n = Input then write_output n (sense (node_id n)) v else v)"

definition pass0 :: "graph \<Rightarrow> (nat \<Rightarrow> bool) \<Rightarrow> port_values \<Rightarrow> port_values" where
  "pass0 g sense v = fold (eval_input sense) (nodes g) v"

text \<open>
  Modelled from the spec: the state of a tick: the port values, the Output nodes whose
  action was invoked (in order), and the number of relaxation passes performed.
\<close>

record tick =
  outputs :: port_values
  fired :: "nat list"
  passes :: nat

text \<open>
  Modelled from the spec: the driving input of an Output node holds when one of its input
  ports reads true.
\<close>

definition driving_input :: "graph \<Rightarrow> port_values \<Rightarrow> node \<Rightarrow> bool" where
  "driving_input g v n = list_ex (read_port g v (node_id n)) (input_ports n)"

text \<open>
  Modelled from the spec: what a relaxation pass does at one node: a Process node reads
  the current values of its input ports and writes its computed output; the action of an
  Output node is invoked when its driving input is true; an Input node is left alone.
\<close>

definition eval_node :: "graph \<Rightarrow> node \<Rightarrow> tick \<Rightarrow> tick" where
  "eval_node g n t =
     (case kind n of
        Input \<Rightarrow> t
      | Process \<Rightarrow> t\<lparr>outputs := write_output n (process_output g (outputs t) n) (outputs t)\<rparr>
      | Output \<Rightarrow>
          if driving_input g (outputs t) n then t\<lparr>fired := fired t @ [node_id n]\<rparr> else t)"

text \<open>Modelled from the spec: a relaxation pass is one sweep over all nodes, in their order.\<close>

definition relaxation_pass :: "graph \<Rightarrow> tick \<Rightarrow> tick" where
  "relaxation_pass g t = (fold (eval_node g) (nodes g) t)\<lparr>passes := Suc (passes t)\<rparr>"

text \<open>
  Modelled from the spec: "no node's output changed relative to the previous pass": every
  output port of every node holds in \<open>v'\<close> the value it holds in \<open>v\<close>.
\<close>

definition unchanged :: "graph \<Rightarrow> port_values \<Rightarrow> port_values \<Rightarrow> bool" where
  "unchanged g v v' =
     list_all (\<lambda>n. list_all (\<lambda>p. v' (node_id n, p) = v (node_id n, p)) (output_ports n))
       (nodes g)"

text \<open>
  Modelled from the spec: passes 1 to N: stop early when a pass changed no output,
  otherwise perform up to N passes and use the last computed values.
\<close>

fun relax :: "graph \<Rightarrow> nat \<Rightarrow> tick \<Rightarrow> tick" where
  "relax g 0 t = t"
| "relax g (Suc n) t =
     (let t' = relaxation_pass g t in
      if unchanged g (outputs t) (outputs t') then t' else relax g n t')"

text \<open>
  Modelled from the spec: the evaluation of one tick, from the port values \<open>v\<close> the last
  tick left: pass 0, then the relaxation passes, at most \<open>max_relaxation_passes\<close> of them
  (3 unless configured).
\<close>

definition start_tick :: "graph \<Rightarrow> (nat \<Rightarrow> bool) \<Rightarrow> port_values \<Rightarrow> tick" where
  "start_tick g sense v = \<lparr>outputs = pass0 g sense v, fired = [], passes = 0\<rparr>"

definition evaluate :: "graph \<Rightarrow> (nat \<Rightarrow> bool) \<Rightarrow> nat \<Rightarrow> port_values \<Rightarrow> tick" where
  "evaluate g sense max_relaxation_passes v =
     relax g max_relaxation_passes (start_tick g sense v)"

subsection \<open>Dependency paths\<close>

text \<open>
  Modelled from the spec: the dependencies a relaxation pass has to respect. The output of
  an Input node is final after pass 0, so what a pass can still change is the output of a
  Process node, and \<open>u\<close> feeds \<open>w\<close> when both are ids of Process nodes and a link leads
  from \<open>u\<close> to \<open>w\<close>. A dependency path is a chain of Process nodes, each feeding the
  next; its length is the number of Process nodes on it (for a chain that an Input node
  drives, the number of links from the Input node to its end). A graph with a cycle has
  dependency paths of every length.
\<close>

definition is_process :: "graph \<Rightarrow> nat \<Rightarrow> bool" where
  "is_process g i = list_ex (\<lambda>n. node_id n = i \<and> kind n = Process) (nodes g)"

definition feeds :: "graph \<Rightarrow> nat \<Rightarrow> nat \<Rightarrow> bool" where
  "feeds g u w =
     (is_process g u \<and> is_process g w
      \<and> list_ex (\<lambda>l. from_node l = u \<and> to_node l = w) (links g))"

fun dep_path :: "graph \<Rightarrow> nat list \<Rightarrow> bool" where
  "dep_path g [] = False"
| "dep_path g [u] = is_process g u"
| "dep_path g (u # w # p) = (feeds g u w \<and> dep_path g (w # p))"

text \<open>
  The same bound, computed: \<open>depth g f w\<close> is at least the length, cut off at \<open>f\<close>, of
  every dependency path that ends in \<open>w\<close>; so no dependency path of \<open>g\<close> is longer than
  \<open>L\<close> when no node reaches the depth \<open>L + 1\<close>.
\<close>

definition feeders :: "graph \<Rightarrow> nat \<Rightarrow> nat list" where
  "feeders g w =
     map from_node (filter (\<lambda>l. to_node l = w \<and> is_process g (from_node l)) (links g))"

fun depth :: "graph \<Rightarrow> nat \<Rightarrow> nat \<Rightarrow> nat" where
  "depth g 0 w = 0"
| "depth g (Suc f) w =
     (if is_process g w then Suc (fold max (map (depth g f) (feeders g w)) 0) else 0)"

definition longest_path_at_most :: "graph \<Rightarrow> nat \<Rightarrow> bool" where
  "longest_path_at_most g L = list_all (\<lambda>n. depth g (Suc L) (node_id n) \<le> L) (nodes g)"

subsection \<open>Notions for the proofs\<close>

text \<open>What \<open>eval_node\<close> and \<open>relaxation_pass\<close> do to the port values alone.\<close>

definition relax_node :: "graph \<Rightarrow> node \<Rightarrow> port_values \<Rightarrow> port_values" where
  "relax_node g n v = (if kind n = Process then write_output n (process_output g v n) v else v)"

definition sweep :: "graph \<Rightarrow> port_values \<Rightarrow> port_values" where
  "sweep g v = fold (relax_node g) (nodes g) v"

text \<open>
  The nodes with an id in \<open>D\<close> are settled in \<open>v\<close> when evaluating any of them again
  changes nothing; \<open>E\<close> is fed from \<open>D\<close> when every node that feeds a node of \<open>E\<close> is in
  \<open>D\<close>; \<open>depth_le g k\<close> holds the ids in which no dependency path longer than \<open>k\<close> ends.
\<close>

definition settled :: "graph \<Rightarrow> nat set \<Rightarrow> port_values \<Rightarrow> bool" where
  "settled g D v = (\<forall>n \<in> set (nodes g). node_id n \<in> D \<longrightarrow> relax_node g n v = v)"

definition fed_from :: "graph \<Rightarrow> nat set \<Rightarrow> nat set \<Rightarrow> bool" where
  "fed_from g D E = (\<forall>u w. feeds g u w \<and> w \<in> E \<longrightarrow> u \<in> D)"

definition depth_le :: "graph \<Rightarrow> nat \<Rightarrow> nat set" where
  "depth_le g k = {w. \<forall>p. dep_path g p \<and> last p = w \<longrightarrow> length p \<le> k}"

text \<open>Every output port of every Input node holds what the node sensed.\<close>

definition inputs_hold :: "graph \<Rightarrow> (nat \<Rightarrow> bool) \<Rightarrow> port_values \<Rightarrow> bool" where
  "inputs_hold g sense v =
     (\<forall>n \<in> set (nodes g). kind n = Input \<longrightarrow>
        (\<forall>p \<in> set (output_ports n). v (node_id n, p) = sense (node_id n)))"

subsection \<open>Example graphs\<close>

definition mk_node :: "nat \<Rightarrow> kind \<Rightarrow> gate \<Rightarrow> string list \<Rightarrow> string list \<Rightarrow> node" where
  "mk_node i k gt ins outs =
     \<lparr>node_id = i, kind = k, name = [], gate_type = gt, input_ports = ins, output_ports = outs\<rparr>"

definition wire :: "nat \<Rightarrow> nat \<Rightarrow> string \<Rightarrow> link" where
  "wire u w p = \<lparr>from_node = u, from_port = ''out'', to_node = w, to_port = p\<rparr>"

text \<open>
  An Input node 1 that drives a chain of two, and of four, one-input OR gates; the node
  list holds the end of the chain first, so that a pass moves the signal by one gate.
\<close>

definition chain2 :: graph where
  "chain2 =
     \<lparr>nodes = [mk_node 3 Process OR [''in''] [''out''], mk_node 2 Process OR [''in''] [''out''],
               mk_node 1 Input OR [] [''out'']],
      links = [wire 1 2 ''in'', wire 2 3 ''in'']\<rparr>"

definition chain4 :: graph where
  "chain4 =
     \<lparr>nodes = [mk_node 5 Process OR [''in''] [''out''], mk_node 4 Process OR [''in''] [''out''],
               mk_node 3 Process OR [''in''] [''out''], mk_node 2 Process OR [''in''] [''out''],
               mk_node 1 Input OR [] [''out'']],
      links = [wire 1 2 ''in'', wire 2 3 ''in'', wire 3 4 ''in'', wire 4 5 ''in'']\<rparr>"

text \<open>The AND gate 3 with the ports \<open>a\<close> and \<open>b\<close>, linked to the Input nodes 1 and 2.\<close>

definition and_graph :: graph where
  "and_graph =
     \<lparr>nodes = [mk_node 3 Process AND [''a'', ''b''] [''out''],
               mk_node 1 Input AND [] [''out''], mk_node 2 Input AND [] [''out'']],
      links = [wire 1 3 ''a'', wire 2 3 ''b'']\<rparr>"

text \<open>Conditions that all hold; conditions of the nodes 1 and 2; port values all false.\<close>

definition all_on :: "nat \<Rightarrow> bool" where
  "all_on i = True"

definition sense_AB :: "bool \<Rightarrow> bool \<Rightarrow> nat \<Rightarrow> bool" where
  "sense_AB x y i = (if i = 1 then x else y)"

definition all_off :: port_values where
  "all_off k = False"

section \<open>Properties of the Qt front end\<close>

lemma emitted_simps:
  "emitted [] = []"
  "emitted (Debug xs # fx) = emitted fx"
  "emitted (Warning xs # fx) = emitted fx"
  "emitted (Emit s # fx) = s # emitted fx"
  "emitted (Exit c # fx) = emitted fx"
  by (simp_all add: emitted_def)

lemma exit_codes_simps:
  "exit_codes [] = []"
  "exit_codes (Debug xs # fx) = exit_codes fx"
  "exit_codes (Warning xs # fx) = exit_codes fx"
  "exit_codes (Emit s # fx) = exit_codes fx"
  "exit_codes (Exit c # fx) = c # exit_codes fx"
  by (simp_all add: exit_codes_def)

lemma handleDBusResponse_no_exit: "exit_codes (handleDBusResponse message) = []"
  by (simp add: handleDBusResponse_def Let_def exit_codes_simps)

text \<open>
  C9. \<^verbatim>\<open>handleDBusResponse\<close> emits \<^verbatim>\<open>sessionCreated\<close> exactly when the reply has an
  argument, the first argument converts to a variant map, and that map has the key
  \<^verbatim>\<open>session_handle\<close>; the signal then carries that value, as a string, and is the only
  signal. For an empty argument list, a first argument that is no map, or a map without
  the key, it returns having emitted no signal at all: neither \<^verbatim>\<open>sessionCreated\<close> nor
  \<^verbatim>\<open>errorOccurred\<close>.
\<close>

theorem handleDBusResponse_sessionCreated_iff:
  "emitted (handleDBusResponse message) =
     (if arguments message \<noteq> []
         \<and> canConvert_QVariantMap (hd (arguments message))
         \<and> contains (value_QVariantMap (hd (arguments message))) ''session_handle''
      then [sessionCreated
              (toString (at_key (value_QVariantMap (hd (arguments message))) ''session_handle''))]
      else [])"
  by (simp add: handleDBusResponse_def Let_def emitted_simps)

text \<open>
  C10. When the root object of the main window could not be created (a null object, for
  the URL of the main window), the slot asks the application to exit with code \<open>-1\<close>;
  for an object that was created, whatever the URL, it asks for no exit.
\<close>

theorem objectCreated_slot_exit:
  "objectCreated_slot main_url (None :: 'o option) main_url = [Exit (- 1)]
   \<and> objectCreated_slot main_url (Some (obj :: 'o)) objUrl = []"
  by (simp add: objectCreated_slot_def)

text \<open>
  The failure path of \<^verbatim>\<open>initCapture\<close> itself. When the portal call does not come back as
  a reply (the portal is not running, refuses, or the call times out), \<^verbatim>\<open>initCapture\<close>
  emits the signal \<^verbatim>\<open>errorOccurred\<close>, carrying the DBus error name, and no other signal;
  and whatever the bus answers, \<^verbatim>\<open>initCapture\<close> asks for no exit of the application.
\<close>

lemma initCapture_call_failure_signalled:
  "exit_codes (initCapture bus) = []
   \<and> (msg_type (bus create_session_call) \<noteq> ReplyMessage \<longrightarrow>
        emitted (initCapture bus) =
          [errorOccurred (''DBus call failed: '' @ errorName (bus create_session_call))])"
  by (simp add: initCapture_def Let_def exit_codes_simps emitted_simps
        handleDBusResponse_no_exit)

lemma initCapture_portal_missing:
  "msg_type (portal_missing create_session_call) \<noteq> ReplyMessage
   \<and> exit_codes (initCapture portal_missing) = []
   \<and> emitted (initCapture portal_missing) =
        [errorOccurred ''DBus call failed: org.freedesktop.DBus.Error.ServiceUnknown'']"
  using initCapture_call_failure_signalled [of portal_missing]
  by (simp add: portal_missing_def)


section \<open>Properties of the graph evaluation\<close>

lemma outputs_eval_node: "outputs (eval_node g n t) = relax_node g n (outputs t)"
  by (cases "kind n") (simp_all add: eval_node_def relax_node_def)

lemma outputs_fold_eval_node:
  "outputs (fold (eval_node g) xs t) = fold (relax_node g) xs (outputs t)"
  by (induction xs arbitrary: t) (simp_all add: outputs_eval_node)

lemma outputs_relaxation_pass: "outputs (relaxation_pass g t) = sweep g (outputs t)"
  by (simp add: relaxation_pass_def sweep_def outputs_fold_eval_node)

lemma passes_relaxation_pass: "passes (relaxation_pass g t) = Suc (passes t)"
  by (simp add: relaxation_pass_def)

lemma write_output_other: "i \<noteq> node_id n \<Longrightarrow> write_output n b v (i, p) = v (i, p)"
  by (simp add: write_output_def)

lemma relax_node_other: "i \<noteq> node_id n \<Longrightarrow> relax_node g n v (i, p) = v (i, p)"
  by (simp add: relax_node_def write_output_other)

lemma relax_node_not_port:
  "p \<notin> set (output_ports n) \<Longrightarrow> relax_node g n v (i, p) = v (i, p)"
  by (simp add: relax_node_def write_output_def)

lemma fold_relax_node_outside:
  "\<forall>n \<in> set xs. i \<noteq> node_id n \<or> p \<notin> set (output_ports n) \<Longrightarrow>
   fold (relax_node g) xs v (i, p) = v (i, p)"
proof (induction xs arbitrary: v)
  case Nil
  show ?case by simp
next
  case (Cons x xs)
  have "fold (relax_node g) (x # xs) v (i, p) = relax_node g x v (i, p)"
    using Cons by simp
  also have "\<dots> = v (i, p)"
    using Cons.prems relax_node_other [of i x g v p] relax_node_not_port [of p x g v i] by auto
  finally show ?case .
qed

lemma unchanged_iff: "unchanged g v (sweep g v) \<longleftrightarrow> sweep g v = v"
proof
  assume u: "unchanged g v (sweep g v)"
  show "sweep g v = v"
  proof
    fix k :: "nat \<times> string"
    obtain i p where k: "k = (i, p)" by (cases k)
    show "sweep g v k = v k"
    proof (cases "\<exists>n \<in> set (nodes g). i = node_id n \<and> p \<in> set (output_ports n)")
      case True
      then show ?thesis using u k by (auto simp: unchanged_def list_all_iff)
    next
      case False
      then show ?thesis
        using fold_relax_node_outside [of "nodes g" i p g v] k by (auto simp: sweep_def)
    qed
  qed
next
  assume "sweep g v = v"
  then show "unchanged g v (sweep g v)" by (simp add: unchanged_def list_all_iff)
qed

lemma find_cong_links:
  "find P xs = Some l \<Longrightarrow> l \<in> set xs \<and> P l"
  by (induction xs) (auto split: if_splits)

lemma read_port_cong:
  assumes "\<forall>l \<in> set (links g). to_node l = i \<longrightarrow>
             v (from_node l, from_port l) = v' (from_node l, from_port l)"
  shows "read_port g v i p = read_port g v' i p"
proof (cases "incoming g i p")
  case None
  then show ?thesis by (simp add: read_port_def)
next
  case (Some l)
  then have "l \<in> set (links g) \<and> to_node l = i"
    using find_cong_links [of "\<lambda>l. to_node l = i \<and> to_port l = p" "links g" l]
    by (simp add: incoming_def)
  then show ?thesis using assms Some by (simp add: read_port_def)
qed

lemma process_output_cong:
  assumes "\<forall>l \<in> set (links g). to_node l = node_id n \<longrightarrow>
             v (from_node l, from_port l) = v' (from_node l, from_port l)"
  shows "process_output g v n = process_output g v' n"
proof -
  have "read_port g v (node_id n) = read_port g v' (node_id n)"
    by (rule ext) (rule read_port_cong [OF assms])
  then show ?thesis by (simp add: process_output_def)
qed

lemma write_output_fixed_iff:
  "write_output n b v = v \<longleftrightarrow> (\<forall>p \<in> set (output_ports n). v (node_id n, p) = b)"
  by (auto simp: write_output_def fun_eq_iff)

lemma is_process_member:
  "n \<in> set (nodes g) \<Longrightarrow> kind n = Process \<Longrightarrow> is_process g (node_id n)"
  by (auto simp: is_process_def list_ex_iff)

lemma feeds_link:
  "m \<in> set (nodes g) \<Longrightarrow> kind m = Process \<Longrightarrow> n \<in> set (nodes g) \<Longrightarrow> kind n = Process \<Longrightarrow>
   l \<in> set (links g) \<Longrightarrow> from_node l = node_id m \<Longrightarrow> to_node l = node_id n \<Longrightarrow>
   feeds g (node_id m) (node_id n)"
  by (auto simp: feeds_def is_process_member list_ex_iff)

text \<open>A step at a node outside a closed settled set leaves the set settled.\<close>

lemma settled_step:
  assumes cl: "fed_from g D D" and st: "settled g D v" and m: "m \<in> set (nodes g)"
  shows "settled g D (relax_node g m v)"
proof (cases "kind m = Process \<and> node_id m \<notin> D")
  case False
  then have "relax_node g m v = v"
    using st m by (auto simp: settled_def relax_node_def)
  then show ?thesis using st by simp
next
  case True
  let ?v' = "relax_node g m v"
  show ?thesis unfolding settled_def
  proof (intro ballI impI)
    fix n assume n: "n \<in> set (nodes g)" and nD: "node_id n \<in> D"
    show "relax_node g n ?v' = ?v'"
    proof (cases "kind n = Process")
      case False
      then show ?thesis by (simp add: relax_node_def)
    next
      case P: True
      have ne: "node_id n \<noteq> node_id m" using True nD by auto
      have same: "\<forall>l \<in> set (links g). to_node l = node_id n \<longrightarrow>
             ?v' (from_node l, from_port l) = v (from_node l, from_port l)"
      proof (intro ballI impI)
        fix l assume l: "l \<in> set (links g)" and to: "to_node l = node_id n"
        have "from_node l \<noteq> node_id m"
        proof
          assume eq: "from_node l = node_id m"
          have "feeds g (node_id m) (node_id n)"
            using feeds_link [OF m _ n P l eq to] True by simp
          then have "node_id m \<in> D" using cl nD by (auto simp: fed_from_def)
          then show False using True by simp
        qed
        then show "?v' (from_node l, from_port l) = v (from_node l, from_port l)"
          by (rule relax_node_other)
      qed
      have po: "process_output g ?v' n = process_output g v n"
        by (rule process_output_cong [OF same])
      have "relax_node g n v = v" using st n nD by (simp add: settled_def)
      then have fx: "\<forall>p \<in> set (output_ports n). v (node_id n, p) = process_output g v n"
        using P by (simp add: relax_node_def write_output_fixed_iff)
      have "\<forall>p \<in> set (output_ports n). ?v' (node_id n, p) = process_output g ?v' n"
        using fx po relax_node_other [OF ne, of g v] by simp
      then show ?thesis using P by (simp add: relax_node_def write_output_fixed_iff)
    qed
  qed
qed

lemma same_id_same_node:
  "distinct (map node_id (nodes g)) \<Longrightarrow> n \<in> set (nodes g) \<Longrightarrow> m \<in> set (nodes g) \<Longrightarrow>
   node_id n = node_id m \<Longrightarrow> n = m"
  by (meson distinct_map inj_onD)

lemma write_output_twice: "write_output n b (write_output n b v) = write_output n b v"
  by (simp add: write_output_fixed_iff) (simp add: write_output_def)

text \<open>A step at a node whose feeders are all settled settles the node itself.\<close>

lemma settled_insert:
  assumes dist: "distinct (map node_id (nodes g))"
    and cl: "fed_from g D D" and st: "settled g D v" and m: "m \<in> set (nodes g)"
    and feeders: "\<forall>u. feeds g u (node_id m) \<longrightarrow> u \<in> D"
  shows "settled g (insert (node_id m) D) (relax_node g m v)"
proof -
  let ?v' = "relax_node g m v"
  have old: "settled g D ?v'" by (rule settled_step [OF cl st m])
  have self: "relax_node g m ?v' = ?v'"
  proof (cases "kind m = Process \<and> node_id m \<notin> D")
    case False
    then have "relax_node g m v = v"
      using st m by (auto simp: settled_def relax_node_def)
    then show ?thesis by simp
  next
    case True
    have same: "\<forall>l \<in> set (links g). to_node l = node_id m \<longrightarrow>
           ?v' (from_node l, from_port l) = v (from_node l, from_port l)"
    proof (intro ballI impI)
      fix l assume l: "l \<in> set (links g)" and to: "to_node l = node_id m"
      have "from_node l \<noteq> node_id m"
      proof
        assume eq: "from_node l = node_id m"
        have "feeds g (node_id m) (node_id m)"
          using feeds_link [OF m _ m _ l eq to] True by simp
        then show False using feeders True by auto
      qed
      then show "?v' (from_node l, from_port l) = v (from_node l, from_port l)"
        by (rule relax_node_other)
    qed
    have "process_output g ?v' m = process_output g v m"
      by (rule process_output_cong [OF same])
    then show ?thesis using True by (simp add: relax_node_def write_output_twice)
  qed
  show ?thesis unfolding settled_def
  proof (intro ballI impI)
    fix n assume n: "n \<in> set (nodes g)" and nD: "node_id n \<in> insert (node_id m) D"
    show "relax_node g n ?v' = ?v'"
    proof (cases "node_id n = node_id m")
      case True
      then have "n = m" using same_id_same_node [OF dist n m] by simp
      then show ?thesis using self by simp
    next
      case False
      then show ?thesis using old n nD by (simp add: settled_def)
    qed
  qed
qed

lemma fold_settles:
  assumes dist: "distinct (map node_id (nodes g))" and fed: "fed_from g D E"
  shows "D \<subseteq> A \<Longrightarrow> A \<subseteq> E \<Longrightarrow> settled g A v \<Longrightarrow> set xs \<subseteq> set (nodes g) \<Longrightarrow>
         \<exists>A'. A \<subseteq> A' \<and> A' \<subseteq> E \<and> settled g A' (fold (relax_node g) xs v)
               \<and> (\<forall>n \<in> set xs. node_id n \<in> E \<longrightarrow> node_id n \<in> A')"
proof (induction xs arbitrary: A v)
  case Nil
  then show ?case by auto
next
  case (Cons x xs)
  have x: "x \<in> set (nodes g)" and xs: "set xs \<subseteq> set (nodes g)" using Cons.prems by auto
  have cl: "fed_from g A A"
    using fed Cons.prems(1,2) unfolding fed_from_def by blast
  show ?case
  proof (cases "node_id x \<in> E")
    case True
    have feeders: "\<forall>u. feeds g u (node_id x) \<longrightarrow> u \<in> A"
      using fed True Cons.prems(1) unfolding fed_from_def by blast
    have st: "settled g (insert (node_id x) A) (relax_node g x v)"
      by (rule settled_insert [OF dist cl Cons.prems(3) x feeders])
    have "\<exists>A'. insert (node_id x) A \<subseteq> A' \<and> A' \<subseteq> E
            \<and> settled g A' (fold (relax_node g) xs (relax_node g x v))
            \<and> (\<forall>n \<in> set xs. node_id n \<in> E \<longrightarrow> node_id n \<in> A')"
      using Cons.prems(1,2) True by (intro Cons.IH [OF _ _ st xs]) auto
    then show ?thesis by auto
  next
    case False
    have st: "settled g A (relax_node g x v)"
      by (rule settled_step [OF cl Cons.prems(3) x])
    have "\<exists>A'. A \<subseteq> A' \<and> A' \<subseteq> E
            \<and> settled g A' (fold (relax_node g) xs (relax_node g x v))
            \<and> (\<forall>n \<in> set xs. node_id n \<in> E \<longrightarrow> node_id n \<in> A')"
      by (rule Cons.IH [OF Cons.prems(1,2) st xs])
    then show ?thesis using False by auto
  qed
qed

lemma sweep_settles:
  assumes dist: "distinct (map node_id (nodes g))" and fed: "fed_from g D E"
    and sub: "D \<subseteq> E" and st: "settled g D v"
  shows "settled g E (sweep g v)"
proof -
  obtain A' where A': "settled g A' (sweep g v)"
      "\<forall>n \<in> set (nodes g). node_id n \<in> E \<longrightarrow> node_id n \<in> A'"
    using fold_settles [OF dist fed subset_refl sub st subset_refl] unfolding sweep_def by blast
  then show ?thesis unfolding settled_def by blast
qed

lemma dep_path_snoc: "dep_path g p \<Longrightarrow> feeds g (last p) w \<Longrightarrow> dep_path g (p @ [w])"
proof (induction g p rule: dep_path.induct)
  case (1 g)
  then show ?case by simp
next
  case (2 g u)
  then show ?case by (simp add: feeds_def)
next
  case (3 g u w' p)
  then show ?case by simp
qed

lemma depth_le_mono: "depth_le g k \<subseteq> depth_le g (Suc k)"
  by (auto simp: depth_le_def)

lemma depth_le_fed: "fed_from g (depth_le g k) (depth_le g (Suc k))"
  unfolding fed_from_def depth_le_def
proof (intro allI impI, elim conjE, rule CollectI, intro allI impI, elim conjE)
  fix u w p
  assume f: "feeds g u w" and w: "w \<in> {w. \<forall>p. dep_path g p \<and> last p = w \<longrightarrow> length p \<le> Suc k}"
    and p: "dep_path g p" and l: "last p = u"
  have "dep_path g (p @ [w])" using dep_path_snoc [OF p] f l by simp
  then have "length (p @ [w]) \<le> Suc k" using w by auto
  then show "length p \<le> k" by simp
qed

lemma settled_depth_0: "settled g (depth_le g 0) v"
  unfolding settled_def
proof (intro ballI impI)
  fix n assume n: "n \<in> set (nodes g)" and d: "node_id n \<in> depth_le g 0"
  have "kind n \<noteq> Process"
  proof
    assume "kind n = Process"
    then have "dep_path g [node_id n]" using n by (simp add: is_process_member)
    then have "length [node_id n] \<le> 0" using d unfolding depth_le_def by fastforce
    then show False by simp
  qed
  then show "relax_node g n v = v" by (simp add: relax_node_def)
qed

lemma settled_after_passes:
  assumes dist: "distinct (map node_id (nodes g))"
  shows "settled g (depth_le g k) ((sweep g ^^ k) v)"
proof (induction k)
  case 0
  show ?case by (simp add: settled_depth_0)
next
  case (Suc k)
  show ?case
    using sweep_settles [OF dist depth_le_fed depth_le_mono Suc] by simp
qed

lemma settled_all_fixed:
  assumes "settled g UNIV v"
  shows "sweep g v = v"
proof -
  have "set xs \<subseteq> set (nodes g) \<Longrightarrow> fold (relax_node g) xs v = v" for xs
    using assms by (induction xs) (auto simp: settled_def)
  then show ?thesis by (simp add: sweep_def)
qed

lemma acyclic_fixed_point:
  assumes dist: "distinct (map node_id (nodes g))"
    and bound: "\<forall>p. dep_path g p \<longrightarrow> length p \<le> L"
  shows "sweep g ((sweep g ^^ L) v) = (sweep g ^^ L) v"
proof -
  have "depth_le g L = UNIV" using bound by (auto simp: depth_le_def)
  then have "settled g UNIV ((sweep g ^^ L) v)"
    using settled_after_passes [OF dist, of L v] by simp
  then show ?thesis by (rule settled_all_fixed)
qed

lemma outputs_funpow_pass:
  "outputs ((relaxation_pass g ^^ k) t) = (sweep g ^^ k) (outputs t)"
  by (induction k) (simp_all add: outputs_relaxation_pass)

lemma funpow_fixed: "f x = x \<Longrightarrow> (f ^^ k) x = x"
  by (induction k) simp_all

lemma relax_reaches:
  "sweep g ((sweep g ^^ k) (outputs t)) = (sweep g ^^ k) (outputs t) \<Longrightarrow> k \<le> n \<Longrightarrow>
   outputs (relax g n t) = (sweep g ^^ k) (outputs t) \<and> passes (relax g n t) \<le> passes t + Suc k"
proof (induction n arbitrary: t k)
  case 0
  then show ?case by simp
next
  case (Suc n)
  let ?t' = "relaxation_pass g t"
  have u: "unchanged g (outputs t) (outputs ?t') \<longleftrightarrow> sweep g (outputs t) = outputs t"
    by (simp only: outputs_relaxation_pass unchanged_iff)
  show ?case
  proof (cases "sweep g (outputs t) = outputs t")
    case True
    then have "relax g (Suc n) t = ?t'"
      using u by (simp add: Let_def)
    then show ?thesis
      using True by (simp add: outputs_relaxation_pass passes_relaxation_pass funpow_fixed)
  next
    case False
    then have r: "relax g (Suc n) t = relax g n ?t'"
      using u by (simp add: Let_def)
    obtain k' where k: "k = Suc k'"
      using False Suc.prems(1) by (cases k) auto
    have fx: "sweep g ((sweep g ^^ k') (outputs ?t')) = (sweep g ^^ k') (outputs ?t')"
      using Suc.prems(1) by (simp add: k outputs_relaxation_pass funpow_swap1)
    have "outputs (relax g n ?t') = (sweep g ^^ k') (outputs ?t')
          \<and> passes (relax g n ?t') \<le> passes ?t' + Suc k'"
      using Suc.IH [OF fx] Suc.prems(2) k by simp
    then show ?thesis
      unfolding r by (simp add: k outputs_relaxation_pass passes_relaxation_pass funpow_swap1)
  qed
qed

lemma eval_input_keeps:
  "v (i, p) = sense i \<Longrightarrow> eval_input sense m v (i, p) = sense i"
  by (simp add: eval_input_def write_output_def)

lemma fold_eval_input_keeps:
  "v (i, p) = sense i \<Longrightarrow> fold (eval_input sense) xs v (i, p) = sense i"
  by (induction xs arbitrary: v) (simp_all add: eval_input_keeps)

lemma fold_eval_input_sets:
  "n \<in> set xs \<Longrightarrow> kind n = Input \<Longrightarrow> p \<in> set (output_ports n) \<Longrightarrow>
   fold (eval_input sense) xs v (node_id n, p) = sense (node_id n)"
proof (induction xs arbitrary: v)
  case Nil
  then show ?case by simp
next
  case (Cons x xs)
  show ?case
  proof (cases "x = n")
    case True
    have "eval_input sense n v (node_id n, p) = sense (node_id n)"
      using Cons.prems by (simp add: eval_input_def write_output_def)
    then show ?thesis using True by (simp add: fold_eval_input_keeps)
  next
    case False
    then show ?thesis using Cons by simp
  qed
qed

lemma inputs_hold_pass0: "inputs_hold g sense (pass0 g sense v)"
  by (simp add: inputs_hold_def pass0_def fold_eval_input_sets)

lemma pass0_fixed:
  assumes "inputs_hold g sense v"
  shows "pass0 g sense v = v"
proof -
  have "set xs \<subseteq> set (nodes g) \<Longrightarrow> fold (eval_input sense) xs v = v" for xs
  proof (induction xs)
    case Nil
    show ?case by simp
  next
    case (Cons x xs)
    have "eval_input sense x v = v"
      using assms Cons.prems
      by (auto simp: inputs_hold_def eval_input_def write_output_fixed_iff)
    then show ?case using Cons by simp
  qed
  then show ?thesis by (simp add: pass0_def)
qed

lemma inputs_hold_relax_node:
  assumes dist: "distinct (map node_id (nodes g))" and m: "m \<in> set (nodes g)"
    and h: "inputs_hold g sense v"
  shows "inputs_hold g sense (relax_node g m v)"
  unfolding inputs_hold_def
proof (intro ballI impI)
  fix n p assume n: "n \<in> set (nodes g)" and k: "kind n = Input" and p: "p \<in> set (output_ports n)"
  show "relax_node g m v (node_id n, p) = sense (node_id n)"
  proof (cases "kind m = Process")
    case True
    then have "n \<noteq> m" using k by auto
    then have "node_id n \<noteq> node_id m" using same_id_same_node [OF dist n m] by auto
    then show ?thesis using h n k p by (simp add: relax_node_other inputs_hold_def)
  next
    case False
    then show ?thesis using h n k p by (simp add: relax_node_def inputs_hold_def)
  qed
qed

lemma inputs_hold_sweep:
  assumes dist: "distinct (map node_id (nodes g))" and h: "inputs_hold g sense v"
  shows "inputs_hold g sense (sweep g v)"
proof -
  have "set xs \<subseteq> set (nodes g) \<Longrightarrow> inputs_hold g sense v \<Longrightarrow>
        inputs_hold g sense (fold (relax_node g) xs v)" for xs v
    by (induction xs arbitrary: v) (simp_all add: inputs_hold_relax_node [OF dist])
  then show ?thesis using h by (simp add: sweep_def)
qed

lemma inputs_hold_funpow_sweep:
  assumes dist: "distinct (map node_id (nodes g))" and h: "inputs_hold g sense v"
  shows "inputs_hold g sense ((sweep g ^^ k) v)"
  by (induction k) (simp_all add: h inputs_hold_sweep [OF dist])

text \<open>
  C1, as amended. Take a graph whose node ids are unique and which has no cycle, its
  longest dependency path counting at most \<open>L\<close> Process nodes. Then \<open>L\<close> relaxation
  passes after pass 0 reach a fixed point: one more pass changes the output of no node.
  And when \<open>L\<close> is at most \<open>max_relaxation_passes\<close>, the evaluation of a tick returns the
  port values of that fixed point; it stops early there, with at most \<open>L + 1\<close> passes
  performed (the last one finds nothing changed); and evaluating the graph again, from the
  values the first evaluation left and with the Input nodes sensing the same, gives the
  same output on every port.
\<close>

theorem acyclic_evaluation_converges:
  assumes dist: "distinct (map node_id (nodes g))"
    and bound: "\<forall>p. dep_path g p \<longrightarrow> length p \<le> L"
  shows "unchanged g (outputs ((relaxation_pass g ^^ L) (start_tick g sense v)))
           (outputs (relaxation_pass g ((relaxation_pass g ^^ L) (start_tick g sense v))))
         \<and> (L \<le> max_relaxation_passes \<longrightarrow>
              outputs (evaluate g sense max_relaxation_passes v)
                = outputs ((relaxation_pass g ^^ L) (start_tick g sense v))
              \<and> passes (evaluate g sense max_relaxation_passes v) \<le> Suc L
              \<and> outputs (evaluate g sense max_relaxation_passes
                           (outputs (evaluate g sense max_relaxation_passes v)))
                  = outputs (evaluate g sense max_relaxation_passes v))"
proof (intro conjI impI)
  let ?t0 = "start_tick g sense v"
  let ?v0 = "pass0 g sense v"
  let ?vL = "(sweep g ^^ L) ?v0"
  let ?r = "evaluate g sense max_relaxation_passes v"
  have o0: "outputs ?t0 = ?v0" and p0: "passes ?t0 = 0" by (simp_all add: start_tick_def)
  have oL: "outputs ((relaxation_pass g ^^ L) ?t0) = ?vL"
    by (simp add: outputs_funpow_pass o0)
  have fx: "sweep g ?vL = ?vL" by (rule acyclic_fixed_point [OF dist bound])
  have "unchanged g ?vL (sweep g ?vL)"
    by (rule iffD2 [OF unchanged_iff fx])
  then show "unchanged g (outputs ((relaxation_pass g ^^ L) ?t0))
               (outputs (relaxation_pass g ((relaxation_pass g ^^ L) ?t0)))"
    by (simp only: outputs_relaxation_pass oL)
  assume enough: "L \<le> max_relaxation_passes"
  have r: "outputs ?r = ?vL \<and> passes ?r \<le> passes ?t0 + Suc L"
    using relax_reaches [of g L ?t0 max_relaxation_passes] fx enough o0
    by (simp add: evaluate_def)
  show "outputs ?r = outputs ((relaxation_pass g ^^ L) ?t0)"
    using r by (simp only: oL)
  show "passes ?r \<le> Suc L" using r p0 by simp
  have "inputs_hold g sense ?vL"
    by (rule inputs_hold_funpow_sweep [OF dist inputs_hold_pass0])
  then have again: "pass0 g sense ?vL = ?vL" by (rule pass0_fixed)
  let ?t1 = "start_tick g sense ?vL"
  have "sweep g ((sweep g ^^ 0) (outputs ?t1)) = (sweep g ^^ 0) (outputs ?t1)"
    using fx again by (simp add: start_tick_def)
  then have "outputs (relax g max_relaxation_passes ?t1) = (sweep g ^^ 0) (outputs ?t1)"
    using relax_reaches [of g 0 ?t1 max_relaxation_passes] by simp
  then show "outputs (evaluate g sense max_relaxation_passes (outputs ?r)) = outputs ?r"
    using r again by (simp add: evaluate_def start_tick_def)
qed

lemma fold_max_ge_init: "(a::nat) \<le> fold max xs a"
  by (induction xs arbitrary: a) (auto intro: order_trans [OF max.cobounded2])

lemma fold_max_ge: "(x::nat) \<in> set xs \<Longrightarrow> x \<le> fold max xs a"
proof (induction xs arbitrary: a)
  case Nil
  then show ?case by simp
next
  case (Cons y ys)
  show ?case
  proof (cases "x = y")
    case True
    have "max y a \<le> fold max ys (max y a)" by (rule fold_max_ge_init)
    then show ?thesis using True by simp
  next
    case False
    then show ?thesis using Cons by simp
  qed
qed

lemma dep_path_last: "dep_path g p \<Longrightarrow> is_process g (last p)"
  by (induction g p rule: dep_path.induct) (auto simp: feeds_def)

lemma dep_path_butlast:
  "dep_path g (q @ [w]) \<Longrightarrow> q \<noteq> [] \<Longrightarrow> dep_path g q \<and> feeds g (last q) w"
proof (induction g q rule: dep_path.induct)
  case (1 g)
  then show ?case by simp
next
  case (2 g u)
  then show ?case by (simp add: feeds_def)
next
  case (3 g u w' p)
  then show ?case by simp
qed

lemma feeds_feeders: "feeds g u w \<Longrightarrow> u \<in> set (feeders g w)"
  by (auto simp: feeds_def feeders_def list_ex_iff)

lemma depth_ge: "dep_path g p \<Longrightarrow> min (length p) f \<le> depth g f (last p)"
proof (induction f arbitrary: p)
  case 0
  show ?case by simp
next
  case (Suc f)
  have proc: "is_process g (last p)" by (rule dep_path_last [OF Suc.prems])
  have ne: "p \<noteq> []" using Suc.prems by auto
  show ?case
  proof (cases "butlast p = []")
    case True
    then have "length p = 1" using ne by (cases p) (auto split: if_splits)
    then show ?thesis using proc by simp
  next
    case False
    have p: "p = butlast p @ [last p]" using ne by simp
    have "dep_path g (butlast p @ [last p])" using Suc.prems p by simp
    then have q: "dep_path g (butlast p)" and f: "feeds g (last (butlast p)) (last p)"
      using dep_path_butlast [of g "butlast p" "last p"] False by simp_all
    have "min (length (butlast p)) f \<le> depth g f (last (butlast p))"
      by (rule Suc.IH [OF q])
    also have "\<dots> \<le> fold max (map (depth g f) (feeders g (last p))) 0"
      using feeds_feeders [OF f] by (intro fold_max_ge) simp
    finally show ?thesis using proc ne by simp
  qed
qed

lemma longest_path_at_most_sound:
  assumes "longest_path_at_most g L"
  shows "\<forall>p. dep_path g p \<longrightarrow> length p \<le> L"
proof (intro allI impI)
  fix p assume p: "dep_path g p"
  have "is_process g (last p)" by (rule dep_path_last [OF p])
  then obtain n where "n \<in> set (nodes g)" "node_id n = last p"
    by (auto simp: is_process_def list_ex_iff)
  then have "depth g (Suc L) (last p) \<le> L"
    using assms by (auto simp: longest_path_at_most_def list_all_iff)
  then have "min (length p) (Suc L) \<le> L"
    using depth_ge [OF p, of "Suc L"] by simp
  then show "length p \<le> L" by simp
qed

lemma chain2_facts:
  "distinct (map node_id (nodes chain2))" "longest_path_at_most chain2 2"
  by (simp_all add: chain2_def mk_node_def wire_def longest_path_at_most_def is_process_def
        feeders_def numeral_2_eq_2)

text \<open>
  The theorem at the chain of two gates, with three passes allowed: the graph meets the
  three hypotheses, and the signal of the Input node has reached the end of the chain.
\<close>

theorem acyclic_evaluation_converges_witness:
  "distinct (map node_id (nodes chain2)) \<and> longest_path_at_most chain2 2 \<and> (2::nat) \<le> 3
   \<and> unchanged chain2 (outputs ((relaxation_pass chain2 ^^ 2) (start_tick chain2 all_on all_off)))
       (outputs (relaxation_pass chain2
                   ((relaxation_pass chain2 ^^ 2) (start_tick chain2 all_on all_off))))
   \<and> outputs (evaluate chain2 all_on 3 all_off)
       = outputs ((relaxation_pass chain2 ^^ 2) (start_tick chain2 all_on all_off))
   \<and> passes (evaluate chain2 all_on 3 all_off) \<le> Suc 2
   \<and> outputs (evaluate chain2 all_on 3 (outputs (evaluate chain2 all_on 3 all_off)))
       = outputs (evaluate chain2 all_on 3 all_off)
   \<and> outputs (evaluate chain2 all_on 3 all_off) (3, ''out'') = True"
proof -
  have le: "(2::nat) \<le> 3" by simp
  have v: "outputs (evaluate chain2 all_on 3 all_off) (3, ''out'') = True"
    by (simp add: evaluate_def start_tick_def chain2_def mk_node_def wire_def pass0_def
          eval_input_def write_output_def relaxation_pass_def eval_node_def process_output_def
          incoming_def read_port_def unchanged_def Let_def numeral_3_eq_3 all_on_def all_off_def)
  show ?thesis
    using acyclic_evaluation_converges
      [OF chain2_facts(1) longest_path_at_most_sound [OF chain2_facts(2)],
       of all_on all_off 3]
      chain2_facts v le
    by blast
qed

text \<open>
  C1 as it is stated does not hold for every graph without cycles. The chain of four gates
  has unique ids and no cycle (its longest dependency path has four nodes), and with the
  three passes of the default the first evaluation leaves the last gate at false, short
  of the fixed point (a further pass changes an output); the second evaluation, with the
  Input node sensing the same, turns the last gate to true.
\<close>

theorem deep_chain_not_idempotent:
  "distinct (map node_id (nodes chain4)) \<and> longest_path_at_most chain4 4
   \<and> outputs (evaluate chain4 all_on 3 all_off) (5, ''out'') = False
   \<and> outputs (evaluate chain4 all_on 3 (outputs (evaluate chain4 all_on 3 all_off))) (5, ''out'')
       = True
   \<and> \<not> unchanged chain4 (outputs (evaluate chain4 all_on 3 all_off))
         (outputs (relaxation_pass chain4 (evaluate chain4 all_on 3 all_off)))"
  by (simp add: evaluate_def start_tick_def chain4_def mk_node_def wire_def pass0_def
        eval_input_def write_output_def relaxation_pass_def eval_node_def process_output_def incoming_def
        read_port_def unchanged_def Let_def numeral_3_eq_3 all_on_def all_off_def
        longest_path_at_most_def is_process_def feeders_def eval_nat_numeral)

lemma relax_is_funpow:
  "\<exists>k. (0 < n \<longrightarrow> 0 < k) \<and> outputs (relax g n t) = (sweep g ^^ k) (outputs t)"
proof (induction n arbitrary: t)
  case 0
  have "outputs (relax g 0 t) = (sweep g ^^ 0) (outputs t)" by simp
  then show ?case by blast
next
  case (Suc n)
  let ?t' = "relaxation_pass g t"
  show ?case
  proof (cases "unchanged g (outputs t) (outputs ?t')")
    case True
    then have "outputs (relax g (Suc n) t) = (sweep g ^^ 1) (outputs t)"
      by (simp add: Let_def outputs_relaxation_pass)
    then show ?thesis by (intro exI [of _ 1]) simp
  next
    case False
    obtain k where "outputs (relax g n ?t') = (sweep g ^^ k) (outputs ?t')"
      using Suc [of ?t'] by blast
    then have "outputs (relax g (Suc n) t) = (sweep g ^^ Suc k) (outputs t)"
      using False by (simp add: Let_def outputs_relaxation_pass funpow_swap1)
    then show ?thesis by (intro exI [of _ "Suc k"]) simp
  qed
qed

lemma sweep_sets_process_node:
  assumes dist: "distinct (map node_id (nodes g))"
    and n: "n \<in> set (nodes g)" and k: "kind n = Process" and q: "q \<in> set (output_ports n)"
    and h: "inputs_hold g sense v"
    and out: "\<And>v'. inputs_hold g sense v' \<Longrightarrow> process_output g v' n = b"
  shows "sweep g v (node_id n, q) = b"
proof -
  have "set xs \<subseteq> set (nodes g) \<Longrightarrow> inputs_hold g sense v \<Longrightarrow>
        v (node_id n, q) = b \<or> n \<in> set xs \<Longrightarrow>
        fold (relax_node g) xs v (node_id n, q) = b" for xs v
  proof (induction xs arbitrary: v)
    case Nil
    then show ?case by simp
  next
    case (Cons x xs)
    have x: "x \<in> set (nodes g)" and xs: "set xs \<subseteq> set (nodes g)" using Cons.prems by auto
    have h': "inputs_hold g sense (relax_node g x v)"
      by (rule inputs_hold_relax_node [OF dist x Cons.prems(2)])
    have "relax_node g x v (node_id n, q) = b \<or> n \<in> set xs"
    proof (cases "x = n")
      case True
      then show ?thesis
        using k q out [OF Cons.prems(2)] by (simp add: relax_node_def write_output_def)
    next
      case False
      then have "node_id n \<noteq> node_id x" using same_id_same_node [OF dist n x] by auto
      then show ?thesis using Cons.prems(3) False by (auto simp: relax_node_other)
    qed
    then show ?case using Cons.IH [OF xs h'] by simp
  qed
  then show ?thesis using h n by (simp add: sweep_def)
qed

text \<open>
  C2. Let \<open>n\<close> be a Process node configured as an AND gate with the two input ports
  \<open>pa\<close> and \<open>pb\<close>, the link at \<open>pa\<close> coming from an output port of the Input node \<open>a\<close>
  and the link at \<open>pb\<close> from an output port of the Input node \<open>b\<close>, in a graph with
  unique node ids. After the evaluation of one tick (with at least one relaxation pass
  allowed) every output port of \<open>n\<close> is true exactly when both \<open>a\<close> and \<open>b\<close> sensed
  true in that tick.
\<close>

theorem and_gate_of_two_inputs:
  assumes dist: "distinct (map node_id (nodes g))"
    and n: "n \<in> set (nodes g)" "kind n = Process" "gate_type n = AND"
           "input_ports n = [pa, pb]" "q \<in> set (output_ports n)"
    and a: "a \<in> set (nodes g)" "kind a = Input"
           "incoming g (node_id n) pa = Some la"
           "from_node la = node_id a" "from_port la \<in> set (output_ports a)"
    and b: "b \<in> set (nodes g)" "kind b = Input"
           "incoming g (node_id n) pb = Some lb"
           "from_node lb = node_id b" "from_port lb \<in> set (output_ports b)"
    and some: "0 < max_relaxation_passes"
  shows "outputs (evaluate g sense max_relaxation_passes v) (node_id n, q)
           = (sense (node_id a) \<and> sense (node_id b))"
proof -
  have out: "process_output g v' n = (sense (node_id a) \<and> sense (node_id b))"
    if h: "inputs_hold g sense v'" for v'
  proof -
    have "v' (from_node la, from_port la) = sense (node_id a)"
      using h a by (simp add: inputs_hold_def)
    moreover have "v' (from_node lb, from_port lb) = sense (node_id b)"
      using h b by (simp add: inputs_hold_def)
    ultimately show ?thesis
      using n a(3) b(3) by (simp add: process_output_def read_port_def)
  qed
  let ?v0 = "pass0 g sense v"
  obtain k where k: "0 < k"
    and r: "outputs (evaluate g sense max_relaxation_passes v) = (sweep g ^^ k) ?v0"
    using relax_is_funpow [of max_relaxation_passes g
            "\<lparr>outputs = ?v0, fired = [], passes = 0\<rparr>"] some
    by (auto simp: evaluate_def start_tick_def)
  obtain j where j: "k = Suc j" using k by (cases k) auto
  have "inputs_hold g sense ((sweep g ^^ j) ?v0)"
    by (rule inputs_hold_funpow_sweep [OF dist inputs_hold_pass0])
  then have "sweep g ((sweep g ^^ j) ?v0) (node_id n, q)
             = (sense (node_id a) \<and> sense (node_id b))"
    using out by (intro sweep_sets_process_node [OF dist n(1) n(2) n(5)])
  then show ?thesis by (simp add: r j)
qed

lemma and_graph_facts:
  "distinct (map node_id (nodes and_graph))"
  "mk_node 3 Process AND [''a'', ''b''] [''out''] \<in> set (nodes and_graph)"
  "mk_node 1 Input AND [] [''out''] \<in> set (nodes and_graph)"
  "mk_node 2 Input AND [] [''out''] \<in> set (nodes and_graph)"
  "incoming and_graph 3 ''a'' = Some (wire 1 3 ''a'')"
  "incoming and_graph 3 ''b'' = Some (wire 2 3 ''b'')"
  by (simp_all add: and_graph_def mk_node_def wire_def incoming_def)

text \<open>The table of the four combinations, from the theorem at the AND gate 3.\<close>

theorem and_gate_of_two_inputs_witness:
  "distinct (map node_id (nodes and_graph)) \<and> (0::nat) < 3
   \<and> outputs (evaluate and_graph (sense_AB True True) 3 all_off) (3, ''out'') = True
   \<and> outputs (evaluate and_graph (sense_AB True False) 3 all_off) (3, ''out'') = False
   \<and> outputs (evaluate and_graph (sense_AB False True) 3 all_off) (3, ''out'') = False
   \<and> outputs (evaluate and_graph (sense_AB False False) 3 all_off) (3, ''out'') = False"
proof -
  have "outputs (evaluate and_graph (sense_AB x y) 3 all_off) (3, ''out'') = (x \<and> y)" for x y
    using and_gate_of_two_inputs
      [of and_graph "mk_node 3 Process AND [''a'', ''b''] [''out'']" "''a''" "''b''" "''out''"
          "mk_node 1 Input AND [] [''out'']" "wire 1 3 ''a''"
          "mk_node 2 Input AND [] [''out'']" "wire 2 3 ''b''" 3 "sense_AB x y" all_off]
      and_graph_facts
    by (simp add: mk_node_def wire_def sense_AB_def)
  then show ?thesis using and_graph_facts(1) by simp
qed

end
